theory Spec2Isabelle
  imports Main
begin

section \<open>Text: JavaScript strings as sequences of UTF-16 code units\<close>

text \<open>
  A JavaScript string is a sequence of 16-bit code units; the regular expressions of the
  lexer carry no \<open>u\<close> flag, so they see code units. A code unit is modelled by its number
  (\<open>nat\<close>); every theorem below that quantifies over lines covers every such sequence.
  \<open>js\<close> turns an ASCII literal into code units.
\<close>

type_synonym jstring = "nat list"

definition js :: "string \<Rightarrow> jstring" where
  "js s = map of_char s"

text \<open>ECMAScript \<open>LineTerminator\<close>: LF, CR, U+2028, U+2029 (what \<open>.\<close> does not match).\<close>

definition isLineTerminator :: "nat \<Rightarrow> bool" where
  "isLineTerminator c = (c = 0x0A \<or> c = 0x0D \<or> c = 0x2028 \<or> c = 0x2029)"

text \<open>ECMAScript \<open>\s\<close>: \<open>WhiteSpace\<close> and \<open>LineTerminator\<close>.\<close>

definition isWhiteSpace :: "nat \<Rightarrow> bool" where
  "isWhiteSpace c = (c = 0x09 \<or> c = 0x0B \<or> c = 0x0C \<or> c = 0x20 \<or> c = 0xA0 \<or> c = 0x1680
     \<or> (0x2000 \<le> c \<and> c \<le> 0x200A) \<or> c = 0x202F \<or> c = 0x205F \<or> c = 0x3000 \<or> c = 0xFEFF
     \<or> isLineTerminator c)"

abbreviation dq :: char where "dq \<equiv> CHR 0x22"
abbreviation sq :: char where "sq \<equiv> CHR 0x27"
abbreviation bsl :: char where "bsl \<equiv> CHR 0x5C"
abbreviation tab :: char where "tab \<equiv> CHR 0x09"
abbreviation lf :: char where "lf \<equiv> CHR 0x0A"
abbreviation cr :: char where "cr \<equiv> CHR 0x0D"

section \<open>Regular expressions with JavaScript's backtracking order\<close>

text \<open>
  The patterns of the source are regular-expression literals. They are embedded as syntax
  trees; \<open>rmatch r s i\<close> lists the end positions of the matches of \<open>r\<close> in \<open>s\<close> that start
  at \<open>i\<close>, in the order in which a backtracking matcher tries them (alternatives left to
  right, quantifiers greedy), so the head of the list is the match JavaScript reports.
  An iteration of \<open>*\<close> that consumes nothing is rejected, as in ECMAScript.
  \<open>Behind r\<close> is the lookbehind assertion \<open>(?<=r)\<close>, \<open>Bol\<close> is \<open>^\<close> and \<open>Eol\<close> is \<open>$\<close>
  (no \<open>m\<close> flag).
\<close>

datatype citem = Ch char | Rng char char | WS

fun inItem :: "nat \<Rightarrow> citem \<Rightarrow> bool" where
  "inItem c (Ch a) = (c = of_char a)"
| "inItem c (Rng a b) = (of_char a \<le> c \<and> c \<le> of_char b)"
| "inItem c WS = isWhiteSpace c"

definition chars :: "string \<Rightarrow> citem list" where
  "chars s = map Ch s"

datatype regex = Eps | Set "citem list" | NSet "citem list" | Dot
  | Seq regex regex | Alt regex regex | Star regex | Behind regex | Bol | Eol

function rmatch :: "regex \<Rightarrow> jstring \<Rightarrow> nat \<Rightarrow> nat list" where
  "rmatch Eps s i = [i]"
| "rmatch (Set cs) s i = (if i < length s \<and> list_ex (inItem (s ! i)) cs then [Suc i] else [])"
| "rmatch (NSet cs) s i = (if i < length s \<and> \<not> list_ex (inItem (s ! i)) cs then [Suc i] else [])"
| "rmatch Dot s i = (if i < length s \<and> \<not> isLineTerminator (s ! i) then [Suc i] else [])"
| "rmatch (Seq r1 r2) s i = concat (map (rmatch r2 s) (rmatch r1 s i))"
| "rmatch (Alt r1 r2) s i = rmatch r1 s i @ rmatch r2 s i"
| "rmatch (Star r) s i =
     concat (map (rmatch (Star r) s) (filter (\<lambda>j. i < j \<and> j \<le> length s) (rmatch r s i))) @ [i]"
| "rmatch (Behind r) s i = (if list_ex (\<lambda>k. i \<in> set (rmatch r s k)) [0..<Suc i] then [i] else [])"
| "rmatch Bol s i = (if i = 0 then [i] else [])"
| "rmatch Eol s i = (if i = length s then [i] else [])"
  by pat_completeness auto
termination
  by (relation "measures [\<lambda>(r, s, i). size r, \<lambda>(r, s, i). length s - i]") auto

text \<open>\<open>r+\<close>, \<open>r?\<close> and a literal word.\<close>

definition Plus :: "regex \<Rightarrow> regex" where
  "Plus r = Seq r (Star r)"

definition Opt :: "regex \<Rightarrow> regex" where
  "Opt r = Alt r Eps"

fun Str :: "string \<Rightarrow> regex" where
  "Str [] = Eps"
| "Str (c # cs) = Seq (Set [Ch c]) (Str cs)"

text \<open>\<open>String.prototype.match\<close> with a pattern without the \<open>g\<close> flag, used as a condition:
  true when the pattern matches at some start position.\<close>

definition rtest :: "regex \<Rightarrow> jstring \<Rightarrow> bool" where
  "rtest r s = list_ex (\<lambda>k. rmatch r s k \<noteq> []) [0..<Suc (length s)]"

section \<open>Tokens, scanner state and the two lexical grammars\<close>

record LexerToken =
  type :: string
  raw :: jstring
  offset :: nat

record ScannerState =
  inString :: bool
  currentReaderToken :: "LexerToken option"

type_synonym rule = "regex \<times> string"

text \<open>The prefix \<open>(#[^\(\)\[\]\{\}"_@~\s,]+[\s,]*)*\<close> shared by the open and keyword rules,
  and the data-reader pattern \<open>#[^\(\)\[\]\{\}"_@~\s,]+\<close>.\<close>

definition readerTag :: regex where
  "readerTag = Seq (Set [Ch CHR ''#''])
     (Plus (NSet (chars ''()[]{}'' @ [Ch dq] @ chars ''_@~'' @ [WS, Ch CHR '',''])))"

definition readerPrefix :: regex where
  "readerPrefix = Star (Seq readerTag (Star (Set [WS, Ch CHR '',''])))"

text \<open>The pattern \<open>(['`~#]\s*)*(true|false|nil)\<close> of the rule for the literal words.\<close>

definition litWords :: regex where
  "litWords = Seq (Star (Seq (Set (Ch sq # chars ''`~#'')) (Star (Set [WS]))))
                  (Alt (Str ''true'') (Alt (Str ''false'') (Str ''nil'')))"

text \<open>The rules of \<open>toplevel\<close>, in the order of the \<open>toplevel.terminal\<close> calls.\<close>

definition toplevel :: "rule list" where
  \<open>toplevel =
   [ \<comment> \<open>\<open>/[\t ,]+/\<close>\<close>
     (Plus (Set [Ch tab, Ch CHR '' '', Ch CHR '','']), ''ws''),
     \<comment> \<open>\<open>/(\r|\n|\r\n)/\<close>\<close>
     (Alt (Set [Ch cr]) (Alt (Set [Ch lf]) (Seq (Set [Ch cr]) (Set [Ch lf]))), ''ws''),
     \<comment> \<open>\<open>/;.*/\<close>\<close>
     (Seq (Set [Ch CHR '';'']) (Star Dot), ''comment''),
     \<comment> \<open>\<open>/(#[^\(\)\[\]\{\}"_@~\s,]+[\s,]*)*((?<=(^|[\(\)\[\]\{\}\s,]))['`~#@?^]\s*)*['`~#@?^]*[\(\[\{"]/\<close>\<close>
     (Seq readerPrefix
        (Seq (Star (Seq (Behind (Alt Bol (Set (chars ''()[]{}'' @ [WS, Ch CHR '','']))))
                     (Seq (Set (Ch sq # chars ''`~#@?^'')) (Star (Set [WS])))))
             (Seq (Star (Set (Ch sq # chars ''`~#@?^'')))
                  (Set (chars ''([{'' @ [Ch dq])))), ''open''),
     \<comment> \<open>\<open>/\)|\]|\}/\<close>\<close>
     (Alt (Set [Ch CHR '')'']) (Alt (Set [Ch CHR '']'']) (Set [Ch CHR ''}''])), ''close''),
     \<comment> \<open>\<open>/#_/\<close>\<close>
     (Str ''#_'', ''ignore''),
     \<comment> \<open>\<open>/(\\[^\(\)\[\]\{\}\s]+|\\[\(\)\[\]\{\}])/\<close>\<close>
     (Alt (Seq (Set [Ch bsl]) (Plus (NSet (chars ''()[]{}'' @ [WS]))))
          (Seq (Set [Ch bsl]) (Set (chars ''()[]{}''))), ''lit''),
     \<comment> \<open>\<open>/(['`~#]\s*)*(true|false|nil)/\<close>\<close>
     (litWords, ''lit''),
     \<comment> \<open>\<open>/(['`~#]\s*)*([0-9]+[rR][0-9a-zA-Z]+)/\<close>\<close>
     (Seq (Star (Seq (Set (Ch sq # chars ''`~#'')) (Star (Set [WS]))))
          (Seq (Plus (Set [Rng CHR ''0'' CHR ''9'']))
               (Seq (Set (chars ''rR''))
                    (Plus (Set [Rng CHR ''0'' CHR ''9'', Rng CHR ''a'' CHR ''z'',
                                Rng CHR ''A'' CHR ''Z''])))), ''lit''),
     \<comment> \<open>\<open>/(['`~#]\s*)*([-+]?[0-9]+(\.[0-9]+)?([eE][-+]?[0-9]+)?)/\<close>\<close>
     (Seq (Star (Seq (Set (Ch sq # chars ''`~#'')) (Star (Set [WS]))))
          (Seq (Opt (Set (chars ''-+'')))
               (Seq (Plus (Set [Rng CHR ''0'' CHR ''9'']))
                    (Seq (Opt (Seq (Set [Ch CHR ''.'']) (Plus (Set [Rng CHR ''0'' CHR ''9'']))))
                         (Opt (Seq (Set (chars ''eE''))
                                   (Seq (Opt (Set (chars ''-+'')))
                                        (Plus (Set [Rng CHR ''0'' CHR ''9''])))))))), ''lit''),
     \<comment> \<open>\<open>/(#[^\(\)\[\]\{\}"_@~\s,]+[\s,]*)*(['`~^]\s*)*(:[^()[\]\{\},~@`^\"\s;]*)/\<close>\<close>
     (Seq readerPrefix
        (Seq (Star (Seq (Set (Ch sq # chars ''`~^'')) (Star (Set [WS]))))
             (Seq (Set [Ch CHR '':''])
                  (Star (NSet (chars ''()[]{},~@`^'' @ [Ch dq, WS, Ch CHR '';'']))))), ''kw''),
     \<comment> \<open>\<open>/#[^\(\)\[\]\{\}"_@~\s,]+/\<close>\<close>
     (readerTag, ''reader''),
     \<comment> \<open>\<open>/(['`~#^@]\s*)*([^_()[\]\{\}#,~@'`^\"\s:;][^()[\]\{\},~@`\"\s;]*)/\<close>\<close>
     (Seq (Star (Seq (Set (Ch sq # chars ''`~#^@'')) (Star (Set [WS]))))
          (Seq (NSet (chars ''_()[]{}#,~@'' @ [Ch sq] @ chars ''`^'' @ [Ch dq, WS] @ chars '':;''))
               (Star (NSet (chars ''()[]{},~@`'' @ [Ch dq, WS, Ch CHR '';''])))), ''id''),
     \<comment> \<open>\<open>/./\<close>\<close>
     (Dot, ''junk'') ]\<close>

text \<open>The rules of the inside-string grammar \<open>inString\<close> (named \<open>inStringRules\<close> here, the
  name \<open>inString\<close> being the field of the scanner state).\<close>

definition inStringRules :: "rule list" where
  \<open>inStringRules =
   [ \<comment> \<open>\<open>/"/\<close>\<close>
     (Set [Ch dq], ''close''),
     \<comment> \<open>\<open>/(\\.|[^\\"\t\r\n ])+/\<close>\<close>
     (Plus (Alt (Seq (Set [Ch bsl]) Dot) (NSet [Ch bsl, Ch dq, Ch tab, Ch cr, Ch lf, Ch CHR '' ''])),
      ''str-inside''),
     \<comment> \<open>\<open>/[\t ]+/\<close>\<close>
     (Plus (Set [Ch tab, Ch CHR '' '']), ''ws''),
     \<comment> \<open>\<open>/(\r?\n)/\<close>\<close>
     (Seq (Opt (Set [Ch cr])) (Set [Ch lf]), ''ws'') ]\<close>

datatype grammar = Toplevel | InString

fun rules :: "grammar \<Rightarrow> rule list" where
  "rules Toplevel = toplevel"
| "rules InString = inStringRules"

section \<open>The rule table's scan\<close>

text \<open>
  Modelled from the spec: \<open>LexicalGrammar.lex\<close> and \<open>Lexer.scan\<close> of the module \<open>./lexer\<close>,
  which is imported by the source but is not part of it. The specification of the rule
  table says: \<open>scan(text, startPosition, lengthCap)\<close> returns the next token starting at
  \<open>startPosition\<close>, or a no-match signal if \<open>startPosition >= lengthCap\<close> or no rule matches;
  rules are evaluated in table order, the first rule whose pattern matches anchored exactly
  at \<open>startPosition\<close> wins, its classifier gives the token kind, and the length of the match
  determines the next position. \<open>firstMatch\<close> is that ordered search; \<open>scan\<close> returns the
  token together with the lexer's new position.
\<close>

fun firstMatch :: "rule list \<Rightarrow> jstring \<Rightarrow> nat \<Rightarrow> (LexerToken \<times> nat) option" where
  "firstMatch [] s i = None"
| "firstMatch ((r, ty) # rs) s i =
     (case rmatch r s i of
        [] \<Rightarrow> firstMatch rs s i
      | j # _ \<Rightarrow> Some (\<lparr>type = ty, raw = take (j - i) (drop i s), offset = i\<rparr>, j))"

text \<open>Modelled from the spec: \<open>Lexer.scan\<close> with its no-match signal (\<open>None\<close>) at the length
  cap or when no rule matches.\<close>

definition scan :: "rule list \<Rightarrow> jstring \<Rightarrow> nat \<Rightarrow> nat \<Rightarrow> (LexerToken \<times> nat) option" where
  "scan rs text pos cap = (if pos \<ge> cap then None else firstMatch rs text pos)"

section \<open>The scanner\<close>

text \<open>The condition \<open>tk.raw.match(/[~`'@#]*"$/)\<close> of \<open>processLine\<close>.\<close>

definition quoteEnd :: regex where
  "quoteEnd = Seq (Star (Set (chars ''~`'' @ [Ch sq] @ chars ''@#''))) (Seq (Set [Ch dq]) Eol)"

text \<open>
  The \<open>do ... while (tk)\<close> loop of \<open>processLine\<close>, on values. The local \<open>lex\<close> is one of the
  two grammars' lexers over \<open>line\<close> at a position (\<open>g\<close>, \<open>pos\<close>); \<open>st\<close> is the value of
  \<open>this.state\<close> and \<open>tks\<close> the tokens pushed so far. A \<open>continue\<close> goes to the loop condition,
  which holds since \<open>tk\<close> is a token. This model computes the kind, raw text and offset of
  every pushed token and the value of the state; it leaves out the reference to the state
  object that each pushed token carries (\<open>state: this.state\<close>). The model with the store
  below has the references of the source; the two agree on kinds, raw texts, offsets and the
  resulting state (\<open>store_model_agrees\<close>).
\<close>

function lexLoop ::
  "nat \<Rightarrow> jstring \<Rightarrow> grammar \<Rightarrow> nat \<Rightarrow> ScannerState \<Rightarrow> LexerToken list
     \<Rightarrow> LexerToken list \<times> ScannerState"
where
  "lexLoop cap line g pos st tks =
    (case scan (rules g) line pos cap of
       None \<Rightarrow> (tks, st)
     | Some (tk, oldpos) \<Rightarrow>
         if rtest quoteEnd (raw tk) then
           (if type tk = ''open'' then
              lexLoop cap line InString oldpos (st\<lparr>inString := True\<rparr>) (tks @ [tk])
            else if type tk = ''close'' then
              lexLoop cap line Toplevel oldpos (st\<lparr>inString := False\<rparr>) (tks @ [tk])
            else lexLoop cap line g oldpos st (tks @ [tk]))
         else if type tk = ''reader'' then
           lexLoop cap line g oldpos (st\<lparr>currentReaderToken := Some tk\<rparr>) tks
         else
           (case currentReaderToken st of
              None \<Rightarrow> lexLoop cap line g oldpos st (tks @ [tk])
            | Some crt \<Rightarrow>
                if type tk \<in> set [''ws'', ''comment''] then
                  lexLoop cap line g oldpos
                    (st\<lparr>currentReaderToken := Some (crt\<lparr>raw := raw crt @ raw tk\<rparr>)\<rparr>) tks
                else
                  lexLoop cap line g oldpos (st\<lparr>currentReaderToken := None\<rparr>)
                    (tks @ [tk\<lparr>offset := offset crt, raw := raw crt @ js [lf] @ raw tk\<rparr>])))"
  by pat_completeness auto



text \<open>The \<open>Scanner\<close> object: its retained \<open>state\<close> field (\<open>this_state\<close>) and the constructor's
  private \<open>maxLength\<close>.\<close>

record Scanner =
  this_state :: ScannerState
  maxLength :: nat

definition initialState :: ScannerState where
  "initialState = \<lparr>inString = False, currentReaderToken = None\<rparr>"

definition newScanner :: "nat \<Rightarrow> Scanner" where
  "newScanner n = \<lparr>this_state = initialState, maxLength = n\<rparr>"

text \<open>\<open>processLine(line, state = this.state)\<close>: the argument \<open>None\<close> is the omitted
  parameter. The result is the returned token array (kinds, raw texts, offsets) and the
  scanner object after the call.\<close>

definition processLine ::
  "Scanner \<Rightarrow> jstring \<Rightarrow> ScannerState option \<Rightarrow> LexerToken list \<times> Scanner" where
  "processLine sc line stateArg =
    (let st0 = (case stateArg of None \<Rightarrow> this_state sc | Some s \<Rightarrow> s);
         res = lexLoop (maxLength sc) line (if inString st0 then InString else Toplevel) 0 st0 []
     in (fst res @ [\<lparr>type = ''eol'', raw = js [lf], offset = length line\<rparr>],
         sc\<lparr>this_state := snd res\<rparr>))"

section \<open>The scanner with its objects in a store\<close>

text \<open>
  In the source a scanner state is an object: \<open>this.state = state\<close> makes the scanner share
  the caller's object, \<open>{ ...this.state, inString: true }\<close> makes a new one,
  \<open>this.state.currentReaderToken = tk\<close> and \<open>this.state.currentReaderToken.raw += tk.raw\<close>
  update objects in place, and every pushed token holds a reference to the state object, not
  a copy. This second model of the same loop keeps the state objects and the pending token
  objects in a store and passes references. \<open>valueOf\<close> reads the value of a state object.
\<close>

type_synonym ref = nat

record StateObject =
  objInString :: bool
  objReaderToken :: "ref option"

record Store =
  stateObjs :: "ref \<Rightarrow> StateObject"
  tokenObjs :: "ref \<Rightarrow> LexerToken"
  nextState :: ref
  nextToken :: ref

text \<open>The \<open>Token\<close> of the source: a lexer token with the reference to a state object.\<close>

record TokenRef = LexerToken +
  stateRef :: ref

record ScannerRef =
  this_stateRef :: ref
  maxLengthRef :: nat

text \<open>\<open>{ ...tk, state: this.state }\<close>, the state being a reference.\<close>

definition withRef :: "LexerToken \<Rightarrow> ref \<Rightarrow> TokenRef" where
  "withRef tk a = \<lparr>type = type tk, raw = raw tk, offset = offset tk, stateRef = a\<rparr>"

text \<open>A new state object, a new token object, and the two updates in place.\<close>

definition newStateObj :: "Store \<Rightarrow> StateObject \<Rightarrow> Store" where
  "newStateObj h v = h\<lparr>stateObjs := (stateObjs h)(nextState h := v), nextState := Suc (nextState h)\<rparr>"

definition newTokenObj :: "Store \<Rightarrow> LexerToken \<Rightarrow> Store" where
  "newTokenObj h v = h\<lparr>tokenObjs := (tokenObjs h)(nextToken h := v), nextToken := Suc (nextToken h)\<rparr>"

definition setReader :: "Store \<Rightarrow> ref \<Rightarrow> ref option \<Rightarrow> Store" where
  "setReader h a t = h\<lparr>stateObjs := (stateObjs h)(a := (stateObjs h a)\<lparr>objReaderToken := t\<rparr>)\<rparr>"

definition appendRaw :: "Store \<Rightarrow> ref \<Rightarrow> jstring \<Rightarrow> Store" where
  "appendRaw h t s = h\<lparr>tokenObjs := (tokenObjs h)(t := (tokenObjs h t)\<lparr>raw := raw (tokenObjs h t) @ s\<rparr>)\<rparr>"

function lexLoopRef ::
  "nat \<Rightarrow> jstring \<Rightarrow> grammar \<Rightarrow> nat \<Rightarrow> ref \<Rightarrow> Store \<Rightarrow> TokenRef list \<Rightarrow> TokenRef list \<times> ref \<times> Store"
where
  "lexLoopRef cap line g pos a h tks =
    (case scan (rules g) line pos cap of
       None \<Rightarrow> (tks, a, h)
     | Some (tk, oldpos) \<Rightarrow>
         if rtest quoteEnd (raw tk) then
           (if type tk = ''open'' then
              lexLoopRef cap line InString oldpos (nextState h)
                (newStateObj h ((stateObjs h a)\<lparr>objInString := True\<rparr>))
                (tks @ [withRef tk (nextState h)])
            else if type tk = ''close'' then
              lexLoopRef cap line Toplevel oldpos (nextState h)
                (newStateObj h ((stateObjs h a)\<lparr>objInString := False\<rparr>))
                (tks @ [withRef tk (nextState h)])
            else lexLoopRef cap line g oldpos a h (tks @ [withRef tk a]))
         else if type tk = ''reader'' then
           lexLoopRef cap line g oldpos a (setReader (newTokenObj h tk) a (Some (nextToken h))) tks
         else
           (case objReaderToken (stateObjs h a) of
              None \<Rightarrow> lexLoopRef cap line g oldpos a h (tks @ [withRef tk a])
            | Some t \<Rightarrow>
                if type tk \<in> set [''ws'', ''comment''] then
                  lexLoopRef cap line g oldpos a (appendRaw h t (raw tk)) tks
                else
                  lexLoopRef cap line g oldpos a (setReader h a None)
                    (tks @ [withRef (tk\<lparr>offset := offset (tokenObjs h t),
                                        raw := raw (tokenObjs h t) @ js [lf] @ raw tk\<rparr>) a])))"
  by pat_completeness auto
definition processLineRef ::
  "Store \<Rightarrow> ScannerRef \<Rightarrow> jstring \<Rightarrow> ref option \<Rightarrow> TokenRef list \<times> ScannerRef \<times> Store" where
  "processLineRef h sc line stateArg =
    (let a0 = (case stateArg of None \<Rightarrow> this_stateRef sc | Some a \<Rightarrow> a);
         res = lexLoopRef (maxLengthRef sc) line
                 (if objInString (stateObjs h a0) then InString else Toplevel) 0 a0 h []
     in (fst res @ [\<lparr>type = ''eol'', raw = js [lf], offset = length line, stateRef = fst (snd res)\<rparr>],
         sc\<lparr>this_stateRef := fst (snd res)\<rparr>, snd (snd res)))"

definition valueOf :: "Store \<Rightarrow> ref \<Rightarrow> ScannerState" where
  "valueOf h a = \<lparr>inString = objInString (stateObjs h a),
                  currentReaderToken = map_option (tokenObjs h) (objReaderToken (stateObjs h a))\<rparr>"

text \<open>A store right after \<open>new Scanner(...)\<close> and a caller's
  \<open>{ inString: false, currentReaderToken: undefined }\<close>: the scanner's own state object at
  reference 0, the caller's at reference 1.\<close>

definition store0 :: Store where
  "store0 = \<lparr>stateObjs = (\<lambda>_. \<lparr>objInString = False, objReaderToken = None\<rparr>),
             tokenObjs = (\<lambda>_. \<lparr>type = [], raw = [], offset = 0\<rparr>), nextState = 2, nextToken = 0\<rparr>"

section \<open>Bracket pairs\<close>

text \<open>\<open>open[open.length - 1]\<close> is the last code unit as a one-unit string, or \<open>undefined\<close>
  (\<open>None\<close>) for the empty string; \<open>switch\<close> compares with \<open>===\<close>.\<close>

definition validPair :: "jstring \<Rightarrow> jstring \<Rightarrow> bool" where
  "validPair opn close =
    (let openBracket = (if opn = [] then None else Some [last opn]) in
     if close = js '')'' then openBracket = Some (js ''('')
     else if close = js '']'' then openBracket = Some (js ''['')
     else if close = js ''}'' then openBracket = Some (js ''{'')
     else if close = js [dq] then openBracket = Some (js [dq])
     else False)"

section \<open>Properties of token lists\<close>

text \<open>The kind, raw text and offset of a token, without its state reference.\<close>

definition kindRawOffset :: "'a LexerToken_scheme \<Rightarrow> string \<times> jstring \<times> nat" where
  "kindRawOffset t = (type t, raw t, offset t)"




text \<open>A text that a pattern matches as a whole.\<close>

definition fullMatch :: "regex \<Rightarrow> jstring \<Rightarrow> bool" where
  "fullMatch r s = (length s \<in> set (rmatch r s 0))"

text \<open>A regular expression without assertions (\<open>(?<=...)\<close>, \<open>^\<close>, \<open>$\<close>): its matches at a
  position depend on the text from that position on only.\<close>

fun plain :: "regex \<Rightarrow> bool" where
  "plain (Seq r1 r2) = (plain r1 \<and> plain r2)"
| "plain (Alt r1 r2) = (plain r1 \<and> plain r2)"
| "plain (Star r) = plain r"
| "plain (Behind r) = False"
| "plain Bol = False"
| "plain Eol = False"
| "plain r = True"

section \<open>Termination of the scanning loop\<close>

text \<open>A regular expression that cannot match the empty string.\<close>

fun consuming :: "regex \<Rightarrow> bool" where
  "consuming (Set cs) = True"
| "consuming (NSet cs) = True"
| "consuming Dot = True"
| "consuming (Seq r1 r2) = (consuming r1 \<or> consuming r2)"
| "consuming (Alt r1 r2) = (consuming r1 \<and> consuming r2)"
| "consuming r = False"

text \<open>The code units a match of a regular expression that consumes something can start
  with (an upper bound).\<close>

fun firstc :: "regex \<Rightarrow> nat \<Rightarrow> bool" where
  "firstc (Set cs) c = list_ex (inItem c) cs"
| "firstc (NSet cs) c = (\<not> list_ex (inItem c) cs)"
| "firstc Dot c = (\<not> isLineTerminator c)"
| "firstc (Seq r1 r2) c = (firstc r1 c \<or> (\<not> consuming r1 \<and> firstc r2 c))"
| "firstc (Alt r1 r2) c = (firstc r1 c \<or> firstc r2 c)"
| "firstc (Star r) c = firstc r c"
| "firstc r c = False"

declare rmatch.simps(7) [simp del]

lemma rmatch_Star_mem:
  "j \<in> set (rmatch (Star r) s i) \<longleftrightarrow>
     j = i \<or> (\<exists>k \<in> set (rmatch r s i). i < k \<and> k \<le> length s \<and> j \<in> set (rmatch (Star r) s k))"
  by (subst rmatch.simps(7)) auto

lemma rmatch_bounds: "j \<in> set (rmatch r s i) \<Longrightarrow> i \<le> j \<and> (j = i \<or> j \<le> length s)"
proof (induction r s i arbitrary: j rule: rmatch.induct)
  case (5 r1 r2 s i)
  from "5.prems" obtain k where k: "k \<in> set (rmatch r1 s i)" and j: "j \<in> set (rmatch r2 s k)"
    by auto
  from "5.IH"(1)[OF k] "5.IH"(2)[OF k j] show ?case by auto
next
  case (7 r s i)
  show ?case
  proof (cases "j = i")
    case True then show ?thesis by simp
  next
    case False
    with "7.prems" obtain k where k: "k \<in> set (rmatch r s i)" and b: "i < k" "k \<le> length s"
      and j: "j \<in> set (rmatch (Star r) s k)"
      by (subst (asm) rmatch_Star_mem) auto
    from k b have "k \<in> set (filter (\<lambda>j. i < j \<and> j \<le> length s) (rmatch r s i))" by simp
    from "7.IH"(2)[OF this j] b show ?thesis by auto
  qed
qed (auto split: if_splits)

lemma rmatch_consuming: "consuming r \<Longrightarrow> j \<in> set (rmatch r s i) \<Longrightarrow> i < j"
proof (induction r arbitrary: i j)
  case (Seq r1 r2)
  from Seq.prems(2) obtain k where k: "k \<in> set (rmatch r1 s i)" and j: "j \<in> set (rmatch r2 s k)"
    by auto
  from rmatch_bounds[OF k] rmatch_bounds[OF j] Seq.IH(1)[OF _ k] Seq.IH(2)[OF _ j] Seq.prems(1)
  show ?case by (cases "consuming r1") auto
qed (auto split: if_splits)

lemma firstMatch_Some:
  "firstMatch rs s i = Some (tk, j) \<Longrightarrow>
     \<exists>r ty. (r, ty) \<in> set rs \<and> j \<in> set (rmatch r s i) \<and>
            tk = \<lparr>type = ty, raw = take (j - i) (drop i s), offset = i\<rparr>"
proof (induction rs)
  case (Cons a rs)
  obtain r ty where a: "a = (r, ty)" by (cases a)
  show ?case
  proof (cases "rmatch r s i")
    case Nil
    with Cons a show ?thesis by auto
  next
    case (Cons k ks)
    with Cons.prems a have "j = k" "tk = \<lparr>type = ty, raw = take (j - i) (drop i s), offset = i\<rparr>"
      by auto
    with Cons a show ?thesis by auto
  qed
qed simp

lemma rules_consuming: "(r, ty) \<in> set (rules g) \<Longrightarrow> consuming r"
  by (cases g) (auto simp: toplevel_def inStringRules_def Plus_def Opt_def readerTag_def
      readerPrefix_def litWords_def)

lemma scan_advances:
  assumes "scan (rules g) line pos cap = Some (tk, j)"
  shows "pos < j \<and> j \<le> length line \<and> pos < cap"
proof -
  from assms have fm: "firstMatch (rules g) line pos = Some (tk, j)" and c: "pos < cap"
    by (auto simp: scan_def split: if_splits)
  from firstMatch_Some[OF fm] obtain r ty where r: "(r, ty) \<in> set (rules g)"
    and j: "j \<in> set (rmatch r line pos)" by blast
  from rmatch_consuming[OF rules_consuming[OF r] j] rmatch_bounds[OF j] c show ?thesis by auto
qed

termination lexLoop
proof (relation "measure (\<lambda>(cap, line, g, pos, st, tks). length line - pos)", goal_cases)
  case 1 show ?case by simp
qed (auto dest!: scan_advances)

declare lexLoop.simps [simp del]

termination lexLoopRef
proof (relation "measure (\<lambda>(cap, line, g, pos, a, h, tks). length line - pos)", goal_cases)
  case 1 show ?case by simp
qed (auto dest!: scan_advances)

declare lexLoopRef.simps [simp del]




section \<open>Facts for evaluating the scanner on concrete lines\<close>

lemma rmatch_Seq_mem:
  "j \<in> set (rmatch (Seq r1 r2) s i) \<longleftrightarrow> (\<exists>k\<in>set (rmatch r1 s i). j \<in> set (rmatch r2 s k))"
  by simp

lemma rmatch_Star_self: "i \<in> set (rmatch (Star r) s i)"
  by (subst rmatch_Star_mem) simp

text \<open>The pattern \<open>/[~`'@#]*"$/\<close> is found in a text exactly when the text ends in a double
  quote.\<close>

lemma rtest_quoteEnd: "rtest quoteEnd s \<longleftrightarrow> s \<noteq> [] \<and> last s = 34"
proof
  assume "rtest quoteEnd s"
  then obtain k where "rmatch quoteEnd s k \<noteq> []"
    by (auto simp: rtest_def list_ex_iff)
  then obtain j where "j \<in> set (rmatch quoteEnd s k)"
    by (cases "rmatch quoteEnd s k") auto
  then obtain m where "m < length s" "s ! m = 34" "Suc m = length s"
    by (auto simp: quoteEnd_def split: if_splits)
  then have "s \<noteq> []" "m = length s - 1" "s ! m = 34" by auto
  then show "s \<noteq> [] \<and> last s = 34"
    by (simp add: last_conv_nth)
next
  assume a: "s \<noteq> [] \<and> last s = 34"
  let ?k = "length s - 1"
  from a have k: "?k < length s" "s ! ?k = 34" by (auto simp: last_conv_nth)
  have "?k \<in> set (rmatch (Star (Set (chars ''~`'' @ [Ch sq] @ chars ''@#''))) s ?k)"
    by (rule rmatch_Star_self)
  moreover from k have "length s \<in> set (rmatch (Seq (Set [Ch dq]) Eol) s ?k)"
    by auto
  ultimately have "length s \<in> set (rmatch quoteEnd s ?k)"
    unfolding quoteEnd_def by (subst rmatch_Seq_mem) blast
  then show "rtest quoteEnd s"
    unfolding rtest_def list_ex_iff using k(1) by (intro bexI[of _ ?k]) auto
qed

lemmas scanner_eval = lexLoop.simps scan_def toplevel_def inStringRules_def rmatch.simps(7)
  Plus_def Opt_def chars_def js_def readerTag_def readerPrefix_def isWhiteSpace_def
  isLineTerminator_def rtest_quoteEnd processLine_def Let_def newScanner_def
  initialState_def kindRawOffset_def litWords_def

section \<open>Full coverage\<close>





lemma lexLoop_None:
  "scan (rules g) line pos cap = None \<Longrightarrow> lexLoop cap line g pos st tks = (tks, st)"
  by (subst lexLoop.simps) simp












section \<open>Resuming from a state\<close>

text \<open>
  C2. Tokenizing \<open>L1\<close> and then \<open>L2\<close> through one scanner, the second call using the retained
  state, gives for \<open>L2\<close> the same tokens and the same resulting state as a call of
  \<open>processLine\<close> on \<open>L2\<close> with the state retained after \<open>L1\<close> passed explicitly, on a scanner
  whose own retained state \<open>r\<close> is arbitrary. This holds in the model that passes states by
  value and in the model with the store, where the state passed is the retained object.
\<close>

theorem resume_equals_sequential:
  "fst (processLine (snd (processLine sc L1 arg)) L2 None) =
     fst (processLine (sc\<lparr>this_state := r\<rparr>) L2 (Some (this_state (snd (processLine sc L1 arg)))))
   \<and> this_state (snd (processLine (snd (processLine sc L1 arg)) L2 None)) =
     this_state (snd (processLine (sc\<lparr>this_state := r\<rparr>) L2
                        (Some (this_state (snd (processLine sc L1 arg))))))
   \<and> fst (processLineRef (snd (snd (processLineRef h scr L1 argr)))
             (fst (snd (processLineRef h scr L1 argr))) L2 None) =
     fst (processLineRef (snd (snd (processLineRef h scr L1 argr)))
             (scr\<lparr>this_stateRef := a\<rparr>) L2
             (Some (this_stateRef (fst (snd (processLineRef h scr L1 argr))))))
   \<and> snd (snd (processLineRef (snd (snd (processLineRef h scr L1 argr)))
             (fst (snd (processLineRef h scr L1 argr))) L2 None)) =
     snd (snd (processLineRef (snd (snd (processLineRef h scr L1 argr)))
             (scr\<lparr>this_stateRef := a\<rparr>) L2
             (Some (this_stateRef (fst (snd (processLineRef h scr L1 argr)))))))"
  by (simp add: processLine_def processLineRef_def Let_def)

text \<open>With the state passed explicitly, the tokens and the resulting state are the same
  whatever state \<open>r\<close> the scanner retains from the lines it processed before: they depend on
  the line, the value of the state argument and \<open>maxLength\<close> only.\<close>

lemma processLine_ignores_retained_state:
  "fst (processLine (sc\<lparr>this_state := r\<rparr>) line (Some s)) = fst (processLine sc line (Some s))
   \<and> this_state (snd (processLine (sc\<lparr>this_state := r\<rparr>) line (Some s))) =
     this_state (snd (processLine sc line (Some s)))"
  by (simp add: processLine_def Let_def)

section \<open>Sharing of state objects\<close>

lemmas store_eval = lexLoopRef.simps scan_def toplevel_def inStringRules_def rmatch.simps(7)
  Plus_def Opt_def chars_def js_def readerTag_def readerPrefix_def isWhiteSpace_def
  isLineTerminator_def withRef_def rtest_quoteEnd processLineRef_def Let_def litWords_def
  newStateObj_def newTokenObj_def setReader_def appendRaw_def store0_def kindRawOffset_def

lemma lexLoopRef_None:
  "scan (rules g) line pos cap = None \<Longrightarrow> lexLoopRef cap line g pos a h tks = (tks, a, h)"
  by (subst lexLoopRef.simps) simp

lemma lexLoopRef_step:
  assumes "scan (rules g) line pos cap = Some (tk, j)"
  shows "\<exists>g' a' h' newR new.
           lexLoopRef cap line g pos a h tksR = lexLoopRef cap line g' j a' h' (tksR @ newR) \<and>
           lexLoop cap line g pos (valueOf h a) tks =
             lexLoop cap line g' j (valueOf h' a') (tks @ new) \<and>
           map kindRawOffset newR = map kindRawOffset new"
proof -
  have *: ?thesis
    if "lexLoopRef cap line g pos a h tksR = lexLoopRef cap line g' j a' h' (tksR @ newR)"
      and "lexLoop cap line g pos (valueOf h a) tks =
             lexLoop cap line g' j (valueOf h' a') (tks @ new)"
      and "map kindRawOffset newR = map kindRawOffset new"
    for g' a' h' newR new
    using that by blast
  show ?thesis
  proof (cases "rtest quoteEnd (raw tk)")
    case True
    consider (opn) "type tk = ''open''" | (cls) "type tk \<noteq> ''open''" "type tk = ''close''"
      | (oth) "type tk \<noteq> ''open''" "type tk \<noteq> ''close''" by blast
    then show ?thesis
    proof cases
      case opn
      show ?thesis
        by (rule *[of InString "nextState h" "newStateObj h ((stateObjs h a)\<lparr>objInString := True\<rparr>)"
              "[withRef tk (nextState h)]"
              "[tk]"])
           (subst lexLoopRef.simps lexLoop.simps,
            simp_all add: assms True opn withRef_def kindRawOffset_def valueOf_def
              newStateObj_def)+
    next
      case cls
      show ?thesis
        by (rule *[of Toplevel "nextState h" "newStateObj h ((stateObjs h a)\<lparr>objInString := False\<rparr>)"
              "[withRef tk (nextState h)]"
              "[tk]"])
           (subst lexLoopRef.simps lexLoop.simps,
            simp_all add: assms True cls withRef_def kindRawOffset_def valueOf_def
              newStateObj_def)+
    next
      case oth
      show ?thesis
        by (rule *[of g a h "[withRef tk a]" "[tk]"])
           (subst lexLoopRef.simps lexLoop.simps,
            simp_all add: assms True oth withRef_def kindRawOffset_def)+
    qed
  next
    case False
    show ?thesis
    proof (cases "type tk = ''reader''")
      case True
      show ?thesis
        by (rule *[of g a "setReader (newTokenObj h tk) a (Some (nextToken h))" "[]" "[]"])
           (subst lexLoopRef.simps lexLoop.simps,
            simp_all add: assms False True valueOf_def setReader_def newTokenObj_def)+
    next
      case nr: False
      show ?thesis
      proof (cases "objReaderToken (stateObjs h a)")
        case None
        show ?thesis
          by (rule *[of g a h "[withRef tk a]" "[tk]"])
             (subst lexLoopRef.simps lexLoop.simps,
              simp_all add: assms False nr None withRef_def kindRawOffset_def valueOf_def)+
      next
        case (Some t)
        show ?thesis
        proof (cases "type tk \<in> set [''ws'', ''comment'']")
          case True
          show ?thesis
            by (rule *[of g a "appendRaw h t (raw tk)" "[]" "[]"])
               (subst lexLoopRef.simps lexLoop.simps,
                use True in \<open>simp_all add: assms False nr Some valueOf_def appendRaw_def\<close>)+
        next
          case ws: False
          show ?thesis
            by (rule *[of g a "setReader h a None"
                  "[withRef (tk\<lparr>offset := offset (tokenObjs h t),
                                raw := raw (tokenObjs h t) @ js [lf] @ raw tk\<rparr>) a]"
                  "[tk\<lparr>offset := offset (tokenObjs h t),
                                  raw := raw (tokenObjs h t) @ js [lf] @ raw tk\<rparr>]"])
               (subst lexLoopRef.simps lexLoop.simps,
                use ws in \<open>simp_all add: assms False nr Some withRef_def kindRawOffset_def
                  valueOf_def setReader_def\<close>)+
        qed
      qed
    qed
  qed
qed

lemma store_agrees_loop:
  "map kindRawOffset tksR = map kindRawOffset tks \<Longrightarrow>
   map kindRawOffset (fst (lexLoopRef cap line g pos a h tksR)) =
     map kindRawOffset (fst (lexLoop cap line g pos (valueOf h a) tks)) \<and>
   valueOf (snd (snd (lexLoopRef cap line g pos a h tksR))) (fst (snd (lexLoopRef cap line g pos a h tksR))) =
     snd (lexLoop cap line g pos (valueOf h a) tks)"
proof (induction "length line - pos" arbitrary: g pos a h tksR tks rule: less_induct)
  case less
  show ?case
  proof (cases "scan (rules g) line pos cap")
    case None
    with less.prems show ?thesis by (simp add: lexLoopRef_None lexLoop_None)
  next
    case (Some x)
    obtain tk j where "x = (tk, j)" by (cases x)
    with Some have sc: "scan (rules g) line pos cap = Some (tk, j)" by simp
    from scan_advances[OF sc] have m: "length line - j < length line - pos" by auto
    from lexLoopRef_step[OF sc, of a h tksR tks] obtain g' a' h' newR new where
      r: "lexLoopRef cap line g pos a h tksR = lexLoopRef cap line g' j a' h' (tksR @ newR)" and
      v: "lexLoop cap line g pos (valueOf h a) tks = lexLoop cap line g' j (valueOf h' a') (tks @ new)"
      and n: "map kindRawOffset newR = map kindRawOffset new" by blast
    from less.prems n have "map kindRawOffset (tksR @ newR) = map kindRawOffset (tks @ new)" by simp
    from less.hyps[OF m this] r v show ?thesis by simp
  qed
qed


text \<open>The model that passes states by value computes what the model with the store computes:
  the same kinds, raw texts and offsets, and the value of the resulting state.\<close>

lemma store_model_agrees:
  "map kindRawOffset (fst (processLineRef h sc line arg)) =
     map kindRawOffset (fst (processLine \<lparr>this_state = valueOf h (this_stateRef sc),
        maxLength = maxLengthRef sc\<rparr> line (map_option (valueOf h) arg)))
   \<and> valueOf (snd (snd (processLineRef h sc line arg)))
              (this_stateRef (fst (snd (processLineRef h sc line arg)))) =
     this_state (snd (processLine \<lparr>this_state = valueOf h (this_stateRef sc),
        maxLength = maxLengthRef sc\<rparr> line (map_option (valueOf h) arg)))"
proof -
  have i: "inString (valueOf h a) = objInString (stateObjs h a)" for a
    by (simp add: valueOf_def)
  show ?thesis
  proof (cases arg)
    case None
    from store_agrees_loop[of "[]" "[]" "maxLengthRef sc" line
        "if objInString (stateObjs h (this_stateRef sc)) then InString else Toplevel" 0
        "this_stateRef sc" h]
    show ?thesis
      by (simp add: None processLineRef_def processLine_def Let_def i kindRawOffset_def)
  next
    case (Some a)
    from store_agrees_loop[of "[]" "[]" "maxLengthRef sc" line
        "if objInString (stateObjs h a) then InString else Toplevel" 0 a h]
    show ?thesis
      by (simp add: Some processLineRef_def processLine_def Let_def i kindRawOffset_def)
  qed
qed

text \<open>
  C8, at the failing input: a scanner and a caller's fresh state object; \<open>processLine\<close> is
  called twice with the line \<open>x #a\<close> and that same state object. The first call returns the
  tokens \<open>x\<close>, a space and the end of line, and stores the reader token \<open>#a\<close> in the caller's
  object; the second call, with the same arguments, returns the merged token \<open>#a\<close>, newline,
  \<open>x\<close> at offset 2 instead of \<open>x\<close>.
\<close>

theorem same_state_object_twice:
  "map kindRawOffset
     (fst (processLineRef store0 \<lparr>this_stateRef = 0, maxLengthRef = 10000\<rparr> (js ''x #a'') (Some 1))) =
     [(''id'', js ''x'', 0), (''ws'', js '' '', 1), (''eol'', js [lf], 4)]
   \<and> map kindRawOffset
     (fst (processLineRef
        (snd (snd (processLineRef store0 \<lparr>this_stateRef = 0, maxLengthRef = 10000\<rparr>
                     (js ''x #a'') (Some 1))))
        (fst (snd (processLineRef store0 \<lparr>this_stateRef = 0, maxLengthRef = 10000\<rparr>
                     (js ''x #a'') (Some 1))))
        (js ''x #a'') (Some 1))) =
     [(''id'', js ''#a'' @ js [lf] @ js ''x'', 2), (''ws'', js '' '', 1), (''eol'', js [lf], 4)]"
  by (simp add: store_eval)

section \<open>Strings and reader tags across lines\<close>

lemma hello_first_line:
  assumes "15 \<le> m"
  shows \<open>processLine (newScanner m) (js ''(println "hello'') None =
    ([\<lparr>type = ''open'', raw = js ''('', offset = 0\<rparr>,
      \<lparr>type = ''id'', raw = js ''println'', offset = 1\<rparr>,
      \<lparr>type = ''ws'', raw = js '' '', offset = 8\<rparr>,
      \<lparr>type = ''open'', raw = js [dq], offset = 9\<rparr>,
      \<lparr>type = ''str-inside'', raw = js ''hello'', offset = 10\<rparr>,
      \<lparr>type = ''eol'', raw = js [lf], offset = 15\<rparr>],
     \<lparr>this_state = initialState\<lparr>inString := True\<rparr>, maxLength = m\<rparr>)\<close>
  using assms by (simp add: scanner_eval)

lemma world_second_line:
  assumes "15 \<le> m"
  shows \<open>processLine \<lparr>this_state = initialState\<lparr>inString := True\<rparr>, maxLength = m\<rparr>
            (js ''world")'') None =
    ([\<lparr>type = ''str-inside'', raw = js ''world'', offset = 0\<rparr>,
      \<lparr>type = ''close'', raw = js [dq], offset = 5\<rparr>,
      \<lparr>type = ''close'', raw = js '')'', offset = 6\<rparr>,
      \<lparr>type = ''eol'', raw = js [lf], offset = 7\<rparr>],
     \<lparr>this_state = initialState, maxLength = m\<rparr>)\<close>
  using assms by (simp add: scanner_eval)

text \<open>
  C3. On a scanner whose \<open>maxLength\<close> is at least the length of the lines, the line
  \<open>(println "hello\<close> processed from the initial state leaves \<open>inString\<close> true, the line
  \<open>world")\<close> processed next leaves it false, and the tokens of \<open>hello\<close> and of \<open>world\<close> have the
  kind \<open>str-inside\<close>.
\<close>

theorem string_spanning_two_lines:
  assumes "15 \<le> m"
  shows \<open>map kindRawOffset (fst (processLine (newScanner m) (js ''(println "hello'') None)) =
           [(''open'', js ''('', 0), (''id'', js ''println'', 1), (''ws'', js '' '', 8),
            (''open'', js [dq], 9), (''str-inside'', js ''hello'', 10), (''eol'', js [lf], 15)]
         \<and> inString (this_state (snd (processLine (newScanner m) (js ''(println "hello'') None)))
         \<and> map kindRawOffset (fst (processLine
               (snd (processLine (newScanner m) (js ''(println "hello'') None))
               (js ''world")'') None)) =
           [(''str-inside'', js ''world'', 0), (''close'', js [dq], 5), (''close'', js '')'', 6),
            (''eol'', js [lf], 7)]
         \<and> \<not> inString (this_state (snd (processLine
               (snd (processLine (newScanner m) (js ''(println "hello'') None))
               (js ''world")'') None)))\<close>
  unfolding hello_first_line [OF assms] snd_conv fst_conv world_second_line [OF assms]
  by (simp add: kindRawOffset_def initialState_def)

theorem string_spanning_two_lines_witness:
  \<open>(15::nat) \<le> 15
   \<and> inString (this_state (snd (processLine (newScanner 15) (js ''(println "hello'') None)))
   \<and> \<not> inString (this_state (snd (processLine
         (snd (processLine (newScanner 15) (js ''(println "hello'') None))
         (js ''world")'') None)))\<close>
  using string_spanning_two_lines [of 15] by simp

text \<open>
  C9, at the failing input: after the line \<open>#inst\<close> and then a line holding only a double
  quote, both processed from the initial state, the retained state has \<open>inString\<close> true and a
  pending reader token at once.
\<close>

theorem both_flags_set_after_reader_then_quote:
  \<open>this_state (snd (processLine (snd (processLine (newScanner 10000) (js ''#inst'') None))
                        (js [dq]) None))
    = \<lparr>inString = True,
       currentReaderToken = Some \<lparr>type = ''reader'', raw = js ''#inst'', offset = 0\<rparr>\<rparr>\<close>
  by (simp add: scanner_eval)

text \<open>
  C5, at the failing input: the one-unit line U+2028 is matched by no rule of the code
  grammar, the catch-all \<open>/./\<close> included, so it gets no junk token: \<open>processLine\<close> returns the
  end-of-line token alone.
\<close>

theorem line_separator_is_not_junk:
  \<open>firstMatch toplevel [0x2028] 0 = None
   \<and> map kindRawOffset (fst (processLine (newScanner 10000) [0x2028] None)) =
       [(''eol'', js [lf], 1)]\<close>
  by (simp add: scanner_eval)

section \<open>The loop, one round at a time\<close>

text \<open>One round of the loop: the next call has the tokens so far, and at most one more, which
  has the kind of the scanned token and either its raw text or, merged with a pending reader
  token, its raw text after a newline.\<close>

lemma lexLoop_step:
  assumes "scan (rules g) line pos cap = Some (tk, j)"
  shows "\<exists>g' st' new. lexLoop cap line g pos st tks = lexLoop cap line g' j st' (tks @ new) \<and>
           (new = [] \<or> (\<exists>t. new = [t] \<and> type t = type tk \<and>
                             (raw t = raw tk \<or> (\<exists>A. raw t = A @ 10 # raw tk \<and> type tk \<noteq> ''ws''))))"
proof -
  have *: "\<exists>g' st' new. lexLoop cap line g pos st tks = lexLoop cap line g' j st' (tks @ new) \<and>
           (new = [] \<or> (\<exists>t. new = [t] \<and> type t = type tk \<and>
                             (raw t = raw tk \<or> (\<exists>A. raw t = A @ 10 # raw tk \<and> type tk \<noteq> ''ws''))))"
    if "lexLoop cap line g pos st tks = lexLoop cap line g' j st' (tks @ new)"
      and "new = [] \<or> (\<exists>t. new = [t] \<and> type t = type tk \<and> (raw t = raw tk \<or> (\<exists>A. raw t = A @ 10 # raw tk \<and> type tk \<noteq> ''ws'')))"
    for g' st' new
    using that by blast
  show ?thesis
  proof (cases "rtest quoteEnd (raw tk)")
    case True
    consider (opn) "type tk = ''open''" | (cls) "type tk \<noteq> ''open''" "type tk = ''close''"
      | (oth) "type tk \<noteq> ''open''" "type tk \<noteq> ''close''" by blast
    then show ?thesis
    proof cases
      case opn
      show ?thesis
        by (rule *[of InString "st\<lparr>inString := True\<rparr>" "[tk]"])
           (subst lexLoop.simps, simp_all add: assms True opn)
    next
      case cls
      show ?thesis
        by (rule *[of Toplevel "st\<lparr>inString := False\<rparr>" "[tk]"])
           (subst lexLoop.simps, simp_all add: assms True cls)
    next
      case oth
      show ?thesis
        by (rule *[of g st "[tk]"])
           (subst lexLoop.simps, simp_all add: assms True oth)
    qed
  next
    case False
    show ?thesis
    proof (cases "type tk = ''reader''")
      case True
      show ?thesis
        by (rule *[of g "st\<lparr>currentReaderToken := Some tk\<rparr>" "[]"])
           (subst lexLoop.simps, simp_all add: assms False True)
    next
      case nr: False
      show ?thesis
      proof (cases "currentReaderToken st")
        case None
        show ?thesis
          by (rule *[of g st "[tk]"])
             (subst lexLoop.simps, simp_all add: assms False nr None)
      next
        case (Some crt)
        show ?thesis
        proof (cases "type tk \<in> set [''ws'', ''comment'']")
          case True
          show ?thesis
            by (rule *[of g "st\<lparr>currentReaderToken := Some (crt\<lparr>raw := raw crt @ raw tk\<rparr>)\<rparr>" "[]"])
               (subst lexLoop.simps, use True in \<open>simp_all add: assms False nr Some\<close>)
        next
          case ws: False
          show ?thesis
            by (rule *[of g "st\<lparr>currentReaderToken := None\<rparr>"
                  "[tk\<lparr>offset := offset crt, raw := raw crt @ js [lf] @ raw tk\<rparr>]"])
               (subst lexLoop.simps, use ws in \<open>simp_all add: assms False nr Some js_def\<close>)
        qed
      qed
    qed
  qed
qed

text \<open>The loop only adds tokens at the end of those pushed so far.\<close>

lemma lexLoopRef_prefix: "\<exists>rest. fst (lexLoopRef cap line g pos a h tks) = tks @ rest"
proof (induction "length line - pos" arbitrary: g pos a h tks rule: less_induct)
  case less
  show ?case
  proof (cases "scan (rules g) line pos cap")
    case None
    then show ?thesis by (simp add: lexLoopRef_None)
  next
    case (Some x)
    obtain tk j where "x = (tk, j)" by (cases x)
    with Some have sc: "scan (rules g) line pos cap = Some (tk, j)" by simp
    from scan_advances[OF sc] have m: "length line - j < length line - pos" by auto
    from lexLoopRef_step[OF sc, of a h tks "[]"] obtain g' a' h' new where
      eq: "lexLoopRef cap line g pos a h tks = lexLoopRef cap line g' j a' h' (tks @ new)" by blast
    from less.hyps[OF m] obtain rest where
      "fst (lexLoopRef cap line g' j a' h' (tks @ new)) = (tks @ new) @ rest" by blast
    with eq show ?thesis by simp
  qed
qed

text \<open>Every token the loop adds comes from a token of one of the two grammars, with its kind,
  and has its raw text, or its raw text after a newline (a merge with a pending reader
  token).\<close>

lemma lexLoop_emitted:
  assumes "t \<in> set (fst (lexLoop cap line g pos st tks))"
  shows "t \<in> set tks \<or> (\<exists>g' i tk j. firstMatch (rules g') line i = Some (tk, j) \<and>
            type t = type tk \<and> (raw t = raw tk \<or> (\<exists>A. raw t = A @ 10 # raw tk \<and> type tk \<noteq> ''ws'')))"
  using assms
proof (induction "length line - pos" arbitrary: g pos st tks rule: less_induct)
  case less
  show ?case
  proof (cases "scan (rules g) line pos cap")
    case None
    with less.prems show ?thesis by (simp add: lexLoop_None)
  next
    case (Some a)
    obtain tk j where "a = (tk, j)" by (cases a)
    with Some have sc: "scan (rules g) line pos cap = Some (tk, j)" by simp
    then have fm: "firstMatch (rules g) line pos = Some (tk, j)"
      by (auto simp: scan_def split: if_splits)
    from scan_advances[OF sc] have m: "length line - j < length line - pos" by auto
    from lexLoop_step[OF sc, of st tks] obtain g' st' new where
      eq: "lexLoop cap line g pos st tks = lexLoop cap line g' j st' (tks @ new)"
      and new: "new = [] \<or> (\<exists>u. new = [u] \<and> type u = type tk \<and>
                             (raw u = raw tk \<or> (\<exists>A. raw u = A @ 10 # raw tk \<and> type tk \<noteq> ''ws'')))" by blast
    from less.prems eq have "t \<in> set (fst (lexLoop cap line g' j st' (tks @ new)))" by simp
    from less.hyps[OF m this] consider "t \<in> set tks" | "t \<in> set new"
      | "\<exists>g' i tk j. firstMatch (rules g') line i = Some (tk, j) \<and>
            type t = type tk \<and> (raw t = raw tk \<or> (\<exists>A. raw t = A @ 10 # raw tk \<and> type tk \<noteq> ''ws''))" by auto
    then show ?thesis
    proof cases
      case 2
      with new have "type t = type tk \<and> (raw t = raw tk \<or> (\<exists>A. raw t = A @ 10 # raw tk \<and> type tk \<noteq> ''ws''))" by auto
      with fm show ?thesis by blast
    qed auto
  qed
qed

text \<open>
  C4, as stated: after \<open>#inst\<close> alone on a line, the line \<open>"2020-01-01"\<close> yields one merged
  token \<open>#inst\<close>, newline, \<open>"2020-01-01"\<close>. It fails: a string is never one token, the opening
  quote is emitted by itself, unmerged, and the merge happens to the string's interior.
\<close>

theorem reader_tag_then_string_tokens:
  \<open>map kindRawOffset
     (fst (processLine (snd (processLine (newScanner 10000) (js ''#inst'') None))
             (js [dq] @ js ''2020-01-01'' @ js [dq]) None)) =
     [(''open'', js [dq], 0), (''str-inside'', js ''#inst'' @ js [lf] @ js ''2020-01-01'', 0),
      (''close'', js [dq], 11), (''eol'', js [lf], 12)]
   \<and> js ''#inst'' @ js [lf] @ js [dq] @ js ''2020-01-01'' @ js [dq] \<notin>
     set (map raw (fst (processLine (snd (processLine (newScanner 10000) (js ''#inst'') None))
             (js [dq] @ js ''2020-01-01'' @ js [dq]) None)))\<close>
  by (simp add: scanner_eval)

text \<open>
  C4, amended: while a reader token is pending, a token produced by the scan that is not
  whitespace, a comment or a reader tag and whose raw text does not end in a double quote is
  emitted merged: it is the next token added to the output, with its own kind, the raw text
  of the pending token, a newline and its raw text, the offset of the pending token, and the
  reference to the scanner's current state object, in which the pending token is cleared at
  that point (the loop goes on with that store).
\<close>

theorem pending_reader_merge:
  assumes "scan (rules g) line pos cap = Some (tk, p)"
    and "objReaderToken (stateObjs h a) = Some t"
    and "type tk \<notin> set [''ws'', ''comment'', ''reader'']" and "\<not> rtest quoteEnd (raw tk)"
  shows "lexLoopRef cap line g pos a h tks =
           lexLoopRef cap line g p a (setReader h a None)
             (tks @ [\<lparr>type = type tk, raw = raw (tokenObjs h t) @ js [lf] @ raw tk,
                      offset = offset (tokenObjs h t), stateRef = a\<rparr>])
         \<and> objReaderToken (stateObjs (setReader h a None) a) = None
         \<and> (\<exists>rest. fst (lexLoopRef cap line g pos a h tks) =
               tks @ \<lparr>type = type tk, raw = raw (tokenObjs h t) @ js [lf] @ raw tk,
                       offset = offset (tokenObjs h t), stateRef = a\<rparr> # rest)"
proof -
  let ?m = "\<lparr>type = type tk, raw = raw (tokenObjs h t) @ js [lf] @ raw tk,
             offset = offset (tokenObjs h t), stateRef = a\<rparr>"
  from assms have eq: "lexLoopRef cap line g pos a h tks =
      lexLoopRef cap line g p a (setReader h a None) (tks @ [?m])"
    by (subst lexLoopRef.simps) (simp add: withRef_def)
  from lexLoopRef_prefix[of cap line g p a "setReader h a None" "tks @ [?m]"] eq
  have "\<exists>rest. fst (lexLoopRef cap line g pos a h tks) = tks @ ?m # rest" by auto
  with eq show ?thesis by (simp add: setReader_def)
qed

theorem pending_reader_merge_witness:
  \<open>\<exists>rest. fst (processLineRef
        (snd (snd (processLineRef store0 \<lparr>this_stateRef = 0, maxLengthRef = 10000\<rparr>
                     (js ''#inst'') None)))
        (fst (snd (processLineRef store0 \<lparr>this_stateRef = 0, maxLengthRef = 10000\<rparr>
                     (js ''#inst'') None)))
        (js ''2020'') None) =
     \<lparr>type = ''lit'', raw = js ''#inst'' @ js [lf] @ js ''2020'', offset = 0, stateRef = 0\<rparr> # rest\<close>
proof -
  define h1 where "h1 = snd (snd (processLineRef store0 \<lparr>this_stateRef = 0, maxLengthRef = 10000\<rparr>
                                    (js ''#inst'') None))"
  let ?tk = "\<lparr>type = ''lit'', raw = js ''2020'', offset = 0\<rparr>"
  have sc1: "fst (snd (processLineRef store0 \<lparr>this_stateRef = 0, maxLengthRef = 10000\<rparr>
                        (js ''#inst'') None)) = \<lparr>this_stateRef = 0, maxLengthRef = 10000\<rparr>"
    by (simp add: store_eval)
  have o: "objReaderToken (stateObjs h1 0) = Some 0" "\<not> objInString (stateObjs h1 0)"
    and t: "tokenObjs h1 0 = \<lparr>type = ''reader'', raw = js ''#inst'', offset = 0\<rparr>"
    unfolding h1_def by (simp_all add: store_eval)
  have h1: "scan (rules Toplevel) (js ''2020'') 0 10000 = Some (?tk, 4)"
    by (simp add: scan_def toplevel_def rmatch.simps(7) Plus_def Opt_def chars_def js_def
        readerTag_def readerPrefix_def litWords_def isWhiteSpace_def isLineTerminator_def)
  have h3: "type ?tk \<notin> set [''ws'', ''comment'', ''reader'']" by simp
  have h4: "\<not> rtest quoteEnd (raw ?tk)" by (simp add: rtest_quoteEnd js_def)
  from pending_reader_merge [OF h1 o(1) h3 h4, of "[]"] t obtain rest where
    "fst (lexLoopRef 10000 (js ''2020'') Toplevel 0 0 h1 []) =
       \<lparr>type = ''lit'', raw = js ''#inst'' @ js [lf] @ js ''2020'', offset = 0, stateRef = 0\<rparr> # rest"
    by auto
  with o(2) have "\<exists>rest. fst (processLineRef h1 \<lparr>this_stateRef = 0, maxLengthRef = 10000\<rparr>
                             (js ''2020'') None) =
       \<lparr>type = ''lit'', raw = js ''#inst'' @ js [lf] @ js ''2020'', offset = 0, stateRef = 0\<rparr> # rest"
    by (simp add: processLineRef_def Let_def)
  then show ?thesis unfolding sc1 h1_def .
qed

section \<open>The literal words\<close>

lemma toplevel_split: "toplevel = take 7 toplevel @ (litWords, ''lit'') # drop 8 toplevel"
  by (simp add: toplevel_def)

lemma rmatch_shift:
  "plain r \<Longrightarrow> j \<in> set (rmatch r t k) \<Longrightarrow> \<forall>n<length t. t ! n = s ! (i + n) \<Longrightarrow>
   i + length t \<le> length s \<Longrightarrow> i + j \<in> set (rmatch r s (i + k))"
proof (induction r t k arbitrary: j rule: rmatch.induct)
  case (5 r1 r2 t k)
  from "5.prems" obtain m where m: "m \<in> set (rmatch r1 t k)" and j: "j \<in> set (rmatch r2 t m)"
    by auto
  from "5.prems" "5.IH"(1)[OF _ m] "5.IH"(2)[OF m _ j]
  have "i + m \<in> set (rmatch r1 s (i + k))" "i + j \<in> set (rmatch r2 s (i + m))" by auto
  then show ?case by (subst rmatch_Seq_mem) blast
next
  case (7 r t k)
  show ?case
  proof (cases "j = k")
    case True
    then show ?thesis by (simp add: rmatch_Star_self)
  next
    case False
    with "7.prems"(2) obtain m where m: "m \<in> set (rmatch r t k)" and b: "k < m" "m \<le> length t"
      and j: "j \<in> set (rmatch (Star r) t m)"
      by (subst (asm) rmatch_Star_mem) auto
    from m b have f: "m \<in> set (filter (\<lambda>j. k < j \<and> j \<le> length t) (rmatch r t k))" by simp
    from "7.prems"(1) have p: "plain r" by simp
    from "7.IH"(1)[OF p m "7.prems"(3,4)] have 1: "i + m \<in> set (rmatch r s (i + k))" .
    from "7.IH"(2)[OF f "7.prems"(1) j "7.prems"(3,4)]
    have 2: "i + j \<in> set (rmatch (Star r) s (i + m))" .
    from b "7.prems"(4) have 3: "i + k < i + m" "i + m \<le> length s" by auto
    show ?thesis by (subst rmatch_Star_mem) (use 1 2 3 in blast)
  qed
qed (auto split: if_splits)

lemma fullMatch_at:
  assumes "plain r" "fullMatch r (take (j - i) (drop i s))" "i \<le> length s"
  shows "rmatch r s i \<noteq> []"
proof -
  let ?t = "take (j - i) (drop i s)"
  have a: "\<forall>n<length ?t. ?t ! n = s ! (i + n)" by auto
  have b: "i + length ?t \<le> length s" using assms(3) by auto
  from assms(2) have "length ?t \<in> set (rmatch r ?t 0)" by (simp add: fullMatch_def)
  from rmatch_shift[OF assms(1) this a b] show ?thesis by auto
qed

lemma fullMatch_litWords_hd:
  assumes "fullMatch litWords w"
  shows "w \<noteq> [] \<and> hd w \<in> {39, 96, 126, 35, 116, 102, 110}"
proof -
  let ?P = "Seq (Set (Ch sq # chars ''`~#'')) (Star (Set [WS]))"
  let ?W = "Alt (Str ''true'') (Alt (Str ''false'') (Str ''nil''))"
  from assms obtain m where m: "m \<in> set (rmatch (Star ?P) w 0)" and e: "length w \<in> set (rmatch ?W w m)"
    unfolding fullMatch_def litWords_def by (subst (asm) rmatch_Seq_mem) blast
  have "0 < length w \<and> w ! 0 \<in> {39, 96, 126, 35, 116, 102, 110}"
  proof (cases "m = 0")
    case True
    with e show ?thesis by (auto split: if_splits)
  next
    case False
    with m obtain k where "k \<in> set (rmatch ?P w 0)"
      by (subst (asm) rmatch_Star_mem) auto
    then obtain k' where "k' \<in> set (rmatch (Set (Ch sq # chars ''`~#'')) w 0)"
      by (subst (asm) rmatch_Seq_mem) blast
    then show ?thesis by (auto simp: chars_def split: if_splits)
  qed
  then show ?thesis by (cases w) auto
qed

lemma fullMatch_litWords_last:
  assumes "fullMatch litWords w"
  shows "w \<noteq> [] \<and> last w \<in> {101, 108}"
proof -
  let ?P = "Seq (Set (Ch sq # chars ''`~#'')) (Star (Set [WS]))"
  let ?W = "Alt (Str ''true'') (Alt (Str ''false'') (Str ''nil''))"
  from assms obtain m where e: "length w \<in> set (rmatch ?W w m)"
    unfolding fullMatch_def litWords_def by (subst (asm) rmatch_Seq_mem) blast
  then have "0 < length w \<and> w ! (length w - 1) \<in> {101, 108}"
    by (auto split: if_splits)
  then show ?thesis by (auto simp: last_conv_nth)
qed


lemma firstMatch_append:
  "firstMatch (xs @ ys) s i = (case firstMatch xs s i of None \<Rightarrow> firstMatch ys s i | Some x \<Rightarrow> Some x)"
  by (induction xs) (auto split: list.splits)

lemma toplevel_firstMatch_split:
  "firstMatch toplevel s i =
     (case firstMatch (take 7 toplevel) s i of
        None \<Rightarrow> firstMatch ((litWords, ''lit'') # drop 8 toplevel) s i
      | Some x \<Rightarrow> Some x)"
  by (subst toplevel_split) (rule firstMatch_append)

lemma firstMatch_span:
  assumes "firstMatch (rules g) s i = Some (tk, j)"
  shows "i < j \<and> j \<le> length s"
proof -
  from firstMatch_Some[OF assms] obtain r ty where r: "(r, ty) \<in> set (rules g)"
    and j: "j \<in> set (rmatch r s i)" by blast
  from rmatch_consuming[OF rules_consuming[OF r] j] rmatch_bounds[OF j] show ?thesis by auto
qed

text \<open>Rules whose matches start with a code unit that no literal word starts with.\<close>

lemma first_unit_rules:
  assumes "(r, ty) \<in> set (take 3 toplevel) \<or> (r, ty) = toplevel ! 4 \<or>
           (r, ty) \<in> set inStringRules \<and> ty \<noteq> ''str-inside''"
    and "j \<in> set (rmatch r s i)"
  shows "i < length s \<and> s ! i \<in> {9, 32, 44, 13, 10, 59, 41, 93, 125, 34}"
  using assms
  by (auto simp: toplevel_def inStringRules_def Plus_def Opt_def split: if_splits)

text \<open>Rules whose matches end with a code unit that no literal word ends with.\<close>

lemma last_unit_rules:
  assumes "(r, ty) = toplevel ! 3 \<or> (r, ty) = toplevel ! 5"
    and "j \<in> set (rmatch r s i)"
  shows "0 < j \<and> j \<le> length s \<and> s ! (j - 1) \<in> {40, 91, 123, 34, 95}"
  using assms
  by (auto simp: toplevel_def chars_def split: if_splits)

lemma literal_word_kind:
  assumes fm: "firstMatch (rules g) s i = Some (tk, j)" and w: "fullMatch litWords (raw tk)"
  shows "type tk = ''lit'' \<or> type tk = ''str-inside''"
proof -
  from firstMatch_span[OF fm] have sp: "i < j" "j \<le> length s" by auto
  from firstMatch_Some[OF fm] obtain r ty where r: "(r, ty) \<in> set (rules g)"
    and j: "j \<in> set (rmatch r s i)"
    and tk: "tk = \<lparr>type = ty, raw = take (j - i) (drop i s), offset = i\<rparr>" by blast
  let ?w = "take (j - i) (drop i s)"
  from w tk have fw: "fullMatch litWords ?w" by simp
  from sp have hd: "hd ?w = s ! i" by (simp add: hd_conv_nth hd_drop_conv_nth)
  from sp have len: "length ?w = j - i" by simp
  from sp have idx: "i + (j - i - 1) = j - 1" by arith
  from sp len have "last ?w = ?w ! (j - i - 1)"
    by (subst last_conv_nth) auto
  also from sp have "\<dots> = s ! (i + (j - i - 1))" by simp
  finally have lst: "last ?w = s ! (j - 1)" by (simp only: idx)
  from fullMatch_litWords_hd[OF fw] hd have h: "s ! i \<in> {39, 96, 126, 35, 116, 102, 110}" by simp
  from fullMatch_litWords_last[OF fw] lst have l: "s ! (j - 1) \<in> {101, 108}" by simp
  have first: False
    if "(r, ty) \<in> set (take 3 toplevel) \<or> (r, ty) = toplevel ! 4 \<or>
        (r, ty) \<in> set inStringRules \<and> ty \<noteq> ''str-inside''"
    using first_unit_rules[OF that j] h by auto
  have lastu: False if "(r, ty) = toplevel ! 3 \<or> (r, ty) = toplevel ! 5"
    using last_unit_rules[OF that j] l by auto
  show ?thesis
  proof (cases g)
    case InString
    with r first tk show ?thesis by auto
  next
    case Toplevel
    show ?thesis
    proof (cases "firstMatch (take 7 toplevel) s i")
      case None
      from sp have "i \<le> length s" by simp
      from fullMatch_at[OF _ fw this] have "rmatch litWords s i \<noteq> []" by (simp add: litWords_def)
      with None fm Toplevel show ?thesis
        by (auto simp: toplevel_firstMatch_split split: list.splits)
    next
      case (Some a)
      with fm Toplevel have "firstMatch (take 7 toplevel) s i = Some (tk, j)"
        by (simp add: toplevel_firstMatch_split)
      from firstMatch_Some[OF this] tk obtain r' where r': "(r', ty) \<in> set (take 7 toplevel)"
        and j': "j \<in> set (rmatch r' s i)" by auto
      from r' have "(r', ty) \<in> set (take 3 toplevel) \<or> (r', ty) = toplevel ! 4
          \<or> (r', ty) = toplevel ! 3 \<or> (r', ty) = toplevel ! 5 \<or> ty = ''lit''"
        by (auto simp: toplevel_def)
      moreover have False
        if a: "(r', ty) \<in> set (take 3 toplevel) \<or> (r', ty) = toplevel ! 4"
      proof -
        from a have "(r', ty) \<in> set (take 3 toplevel) \<or> (r', ty) = toplevel ! 4 \<or>
            (r', ty) \<in> set inStringRules \<and> ty \<noteq> ''str-inside''" by blast
        from first_unit_rules[OF this j'] h show False by auto
      qed
      moreover have False if "(r', ty) = toplevel ! 3 \<or> (r', ty) = toplevel ! 5"
        using last_unit_rules[OF that j'] l by auto
      ultimately show ?thesis using tk by auto
    qed
  qed
qed


lemma rmatch_first_unit:
  "j \<in> set (rmatch r s i) \<Longrightarrow> i < j \<Longrightarrow> i < length s \<and> firstc r (s ! i)"
proof (induction r arbitrary: i j)
  case (Seq r1 r2)
  from Seq.prems(1) obtain k where k: "k \<in> set (rmatch r1 s i)" and j: "j \<in> set (rmatch r2 s k)"
    by auto
  show ?case
  proof (cases "i < k")
    case True
    from Seq.IH(1)[OF k True] show ?thesis by simp
  next
    case False
    with rmatch_bounds[OF k] have ki: "k = i" by simp
    with k rmatch_consuming[of r1 i s i] have "\<not> consuming r1" by auto
    with Seq.IH(2)[of j i] j ki Seq.prems(2) show ?thesis by simp
  qed
next
  case (Star r)
  from Star.prems obtain k where "k \<in> set (rmatch r s i)" "i < k"
    by (subst (asm) rmatch_Star_mem) auto
  from Star.IH[OF this] show ?case by simp
qed (auto split: if_splits)

lemma rmatch_unshift:
  "plain r \<Longrightarrow> j \<in> set (rmatch r s (p + k)) \<Longrightarrow> t = drop p s \<Longrightarrow> p \<le> length s \<Longrightarrow>
   \<exists>j'. j = p + j' \<and> j' \<in> set (rmatch r t k)"
proof (induction r t k arbitrary: j rule: rmatch.induct)
  case (5 r1 r2 t k)
  from "5.prems" obtain m where m: "m \<in> set (rmatch r1 s (p + k))" and j: "j \<in> set (rmatch r2 s m)"
    by auto
  from "5.prems" "5.IH"(1)[OF _ m] obtain m' where m': "m = p + m'" "m' \<in> set (rmatch r1 t k)"
    by auto
  from "5.prems" "5.IH"(2)[OF m'(2) _ j[unfolded m'(1)]] obtain j' where
    "j = p + j'" "j' \<in> set (rmatch r2 t m')" by auto
  with m'(2) show ?case by (subst rmatch_Seq_mem) blast
next
  case (7 r t k)
  show ?case
  proof (cases "j = p + k")
    case True
    then show ?thesis by (simp add: rmatch_Star_self)
  next
    case False
    with "7.prems"(2) obtain m where m: "m \<in> set (rmatch r s (p + k))" and b: "p + k < m" "m \<le> length s"
      and j: "j \<in> set (rmatch (Star r) s m)"
      by (subst (asm) rmatch_Star_mem) auto
    from "7.prems"(1) have pl: "plain r" by simp
    from "7.IH"(1)[OF pl m "7.prems"(3,4)] obtain m' where m': "m = p + m'" "m' \<in> set (rmatch r t k)"
      by auto
    from b m'(1) "7.prems"(3,4) have b': "k < m'" "m' \<le> length t" by auto
    with m'(2) have f: "m' \<in> set (filter (\<lambda>j. k < j \<and> j \<le> length t) (rmatch r t k))" by simp
    from "7.IH"(2)[OF f "7.prems"(1) j[unfolded m'(1)] "7.prems"(3,4)] obtain j' where
      j': "j = p + j'" "j' \<in> set (rmatch (Star r) t m')" by auto
    have "j' \<in> set (rmatch (Star r) t k)"
      by (subst rmatch_Star_mem) (use m'(2) b' j'(2) in blast)
    with j'(1) show ?thesis by blast
  qed
qed (auto split: if_splits)


lemma space_not_printable: "isWhiteSpace c \<Longrightarrow> c < 33 \<or> 126 < c"
  by (auto simp: isWhiteSpace_def isLineTerminator_def)

lemma toplevel_space_start:
  assumes "(r, ty) \<in> set toplevel" "firstc r c" "isWhiteSpace c"
  shows "ty = ''ws'' \<or> r = Dot"
proof -
  from assms(3) have p: "c < 33 \<or> 126 < c" by (rule space_not_printable)
  from assms p show ?thesis
    by (auto simp: toplevel_def Plus_def Opt_def chars_def readerTag_def readerPrefix_def
        litWords_def)
qed

lemma inString_space_start:
  assumes "(r, ty) \<in> set inStringRules" "firstc r c" "isWhiteSpace c"
  shows "ty = ''ws'' \<or> ty = ''str-inside''"
proof -
  from assms(3) have p: "c < 33 \<or> 126 < c" by (rule space_not_printable)
  from assms p show ?thesis
    by (auto simp: inStringRules_def Plus_def Opt_def)
qed


lemma space_run:
  "k \<in> set (rmatch (Star (Set [WS])) w i) \<Longrightarrow> i \<le> x \<Longrightarrow> x < k \<Longrightarrow> isWhiteSpace (w ! x)"
proof (induction "length w - i" arbitrary: i rule: less_induct)
  case less
  from less.prems have "k \<noteq> i" by simp
  with less.prems(1) obtain k1 where k1: "k1 \<in> set (rmatch (Set [WS]) w i)" "k1 \<le> length w"
    and k: "k \<in> set (rmatch (Star (Set [WS])) w k1)"
    by (subst (asm) rmatch_Star_mem) auto
  from k1 have i: "k1 = Suc i" "i < length w" "isWhiteSpace (w ! i)" by (auto split: if_splits)
  show ?case
  proof (cases "x = i")
    case True
    with i show ?thesis by simp
  next
    case False
    with less.prems(2) have "Suc i \<le> x" by simp
    moreover from i have "length w - Suc i < length w - i" by simp
    ultimately show ?thesis using less.hyps[of "Suc i"] k i(1) less.prems(3) by simp
  qed
qed

lemma cluster_step:
  assumes "k \<in> set (rmatch (Seq (Set (Ch sq # chars ''`~#'')) (Star (Set [WS]))) w i)"
  shows "i < length w \<and> w ! i \<in> {39, 96, 126, 35} \<and> k \<in> set (rmatch (Star (Set [WS])) w (Suc i))"
  using assms by (auto simp: chars_def split: if_splits)

lemma cluster_units:
  "m \<in> set (rmatch (Star (Seq (Set (Ch sq # chars ''`~#'')) (Star (Set [WS])))) w i) \<Longrightarrow>
   i \<le> x \<Longrightarrow> x < m \<Longrightarrow> w ! x \<in> {39, 96, 126, 35} \<or> isWhiteSpace (w ! x)"
proof (induction "length w - i" arbitrary: i rule: less_induct)
  case less
  let ?P = "Seq (Set (Ch sq # chars ''`~#'')) (Star (Set [WS]))"
  from less.prems have "m \<noteq> i" by simp
  with less.prems(1) obtain k where k: "k \<in> set (rmatch ?P w i)" "i < k" "k \<le> length w"
    and m: "m \<in> set (rmatch (Star ?P) w k)"
    by (subst (asm) rmatch_Star_mem) auto
  from cluster_step[OF k(1)] have c: "w ! i \<in> {39, 96, 126, 35}"
    "k \<in> set (rmatch (Star (Set [WS])) w (Suc i))" by auto
  consider "x = i" | "Suc i \<le> x" "x < k" | "k \<le> x" using less.prems(2) by linarith
  then show ?case
  proof cases
    case 1
    with c show ?thesis by simp
  next
    case 2
    from space_run[OF c(2) 2] show ?thesis by simp
  next
    case 3
    from k have "length w - k < length w - i" by simp
    from less.hyps[OF this m 3 less.prems(3)] show ?thesis .
  qed
qed

lemma cluster_restart:
  "m \<in> set (rmatch (Star (Seq (Set (Ch sq # chars ''`~#'')) (Star (Set [WS])))) w i) \<Longrightarrow>
   i \<le> p \<Longrightarrow> p \<le> m \<Longrightarrow> p = m \<or> w ! p \<in> {39, 96, 126, 35} \<Longrightarrow>
   m \<in> set (rmatch (Star (Seq (Set (Ch sq # chars ''`~#'')) (Star (Set [WS])))) w p)"
proof (induction "length w - i" arbitrary: i rule: less_induct)
  case less
  let ?P = "Seq (Set (Ch sq # chars ''`~#'')) (Star (Set [WS]))"
  show ?case
  proof (cases "p = i")
    case True
    with less.prems(1) show ?thesis by simp
  next
    case False
    with less.prems have "m \<noteq> i" by simp
    with less.prems(1) obtain k where k: "k \<in> set (rmatch ?P w i)" "i < k" "k \<le> length w"
      and m: "m \<in> set (rmatch (Star ?P) w k)"
      by (subst (asm) rmatch_Star_mem) auto
    from cluster_step[OF k(1)] have c: "k \<in> set (rmatch (Star (Set [WS])) w (Suc i))" by auto
    from rmatch_bounds[OF m] have km: "k \<le> m" by simp
    show ?thesis
    proof (cases "k \<le> p")
      case True
      from k have "length w - k < length w - i" by simp
      from less.hyps[OF this m True less.prems(3,4)] show ?thesis .
    next
      case pk: False
      with False less.prems(2) have "Suc i \<le> p" "p < k" by auto
      from space_run[OF c this] have "isWhiteSpace (w ! p)" .
      from space_not_printable[OF this] have "w ! p \<notin> {39, 96, 126, 35}" by auto
      with less.prems(4) pk km show ?thesis by simp
    qed
  qed
qed

lemma word_units:
  assumes "length w \<in> set (rmatch (Alt (Str ''true'') (Alt (Str ''false'') (Str ''nil''))) w m)"
  shows "m + 3 \<le> length w" and "m \<le> x \<Longrightarrow> x < length w \<Longrightarrow> w ! x \<noteq> 10"
proof -
  from assms consider
      (t) "length w = Suc (Suc (Suc (Suc m)))" "w ! m = 116" "w ! Suc m = 114"
          "w ! Suc (Suc m) = 117" "w ! Suc (Suc (Suc m)) = 101"
    | (f) "length w = Suc (Suc (Suc (Suc (Suc m))))" "w ! m = 102" "w ! Suc m = 97"
          "w ! Suc (Suc m) = 108" "w ! Suc (Suc (Suc m)) = 115" "w ! Suc (Suc (Suc (Suc m))) = 101"
    | (n) "length w = Suc (Suc (Suc m))" "w ! m = 110" "w ! Suc m = 105" "w ! Suc (Suc m) = 108"
    by (auto split: if_splits)
  note c = this
  from c show "m + 3 \<le> length w" by cases auto
  assume x: "m \<le> x" "x < length w"
  from c show "w ! x \<noteq> 10"
  proof cases
    case t
    with x have "x = m \<or> x = Suc m \<or> x = Suc (Suc m) \<or> x = Suc (Suc (Suc m))" by linarith
    with t show ?thesis by auto
  next
    case f
    with x have "x = m \<or> x = Suc m \<or> x = Suc (Suc m) \<or> x = Suc (Suc (Suc m))
        \<or> x = Suc (Suc (Suc (Suc m)))" by linarith
    with f show ?thesis by auto
  next
    case n
    with x have "x = m \<or> x = Suc m \<or> x = Suc (Suc m)" by linarith
    with n show ?thesis by auto
  qed
qed

text \<open>A literal word after a newline: the text after the newline is a literal word itself, or
  it starts with whitespace.\<close>

lemma merged_literal_word:
  assumes "fullMatch litWords (A @ 10 # R)"
  shows "fullMatch litWords R \<or> (R \<noteq> [] \<and> isWhiteSpace (hd R) \<and> 3 \<le> length R)"
proof -
  let ?w = "A @ 10 # R"
  let ?P = "Seq (Set (Ch sq # chars ''`~#'')) (Star (Set [WS]))"
  let ?W = "Alt (Str ''true'') (Alt (Str ''false'') (Str ''nil''))"
  let ?p = "Suc (length A)"
  from assms obtain m where m: "m \<in> set (rmatch (Star ?P) ?w 0)"
    and e: "length ?w \<in> set (rmatch ?W ?w m)"
    unfolding fullMatch_def litWords_def by (subst (asm) rmatch_Seq_mem) blast
  have nl: "?w ! length A = 10" by simp
  have pm: "?p \<le> m"
  proof (rule ccontr)
    assume "\<not> ?p \<le> m"
    then have "m \<le> length A" by simp
    from word_units(2)[OF e this] nl show False by simp
  qed
  have d: "drop ?p ?w = R" by simp
  show ?thesis
  proof (cases "?p = m \<or> ?w ! ?p \<in> {39, 96, 126, 35}")
    case True
    from cluster_restart[OF m _ pm True] have m': "m \<in> set (rmatch (Star ?P) ?w ?p)" by simp
    have "length ?w \<in> set (rmatch litWords ?w ?p)"
      unfolding litWords_def by (subst rmatch_Seq_mem) (use m' e in blast)
    then have l: "length ?w \<in> set (rmatch litWords ?w (?p + 0))" by simp
    have pl: "plain litWords" by (simp add: litWords_def)
    have le: "?p \<le> length ?w" by simp
    from rmatch_unshift[OF pl l d[symmetric] le] obtain j' where
      j': "length ?w = ?p + j'" "j' \<in> set (rmatch litWords R 0)" by blast
    from j'(1) have "j' = length R" by simp
    with j'(2) show ?thesis by (simp add: fullMatch_def)
  next
    case False
    with pm have lt: "?p < m" by simp
    from cluster_units[OF m _ lt] False have "isWhiteSpace (?w ! ?p)" by auto
    moreover from word_units(1)[OF e] lt have "3 \<le> length R" by simp
    moreover then have "R \<noteq> []" by auto
    moreover then have "hd R = ?w ! ?p" by (simp add: hd_conv_nth nth_append)
    ultimately show ?thesis by simp
  qed
qed

lemma merged_word_kind:
  assumes fm: "firstMatch (rules g) s i = Some (tk, j)"
    and w: "fullMatch litWords (A @ 10 # raw tk)" and nws: "type tk \<noteq> ''ws''"
  shows "type tk = ''lit'' \<or> type tk = ''str-inside''"
proof -
  from merged_literal_word[OF w] show ?thesis
  proof
    assume "fullMatch litWords (raw tk)"
    from literal_word_kind[OF fm this] show ?thesis .
  next
    assume a: "raw tk \<noteq> [] \<and> isWhiteSpace (hd (raw tk)) \<and> 3 \<le> length (raw tk)"
    from firstMatch_span[OF fm] have sp: "i < j" "j \<le> length s" by auto
    from firstMatch_Some[OF fm] obtain r ty where r: "(r, ty) \<in> set (rules g)"
      and j: "j \<in> set (rmatch r s i)"
      and tk: "tk = \<lparr>type = ty, raw = take (j - i) (drop i s), offset = i\<rparr>" by blast
    from sp tk have hd: "hd (raw tk) = s ! i" by (simp add: hd_conv_nth hd_drop_conv_nth)
    from sp tk have len: "length (raw tk) = j - i" by simp
    from rmatch_first_unit[OF j sp(1)] have f: "firstc r (s ! i)" by simp
    from a hd have ws: "isWhiteSpace (s ! i)" by simp
    show ?thesis
    proof (cases g)
      case Toplevel
      with r toplevel_space_start[OF _ f ws] nws tk have "r = Dot" by auto
      with j have "j = Suc i" by (auto split: if_splits)
      with len a show ?thesis by simp
    next
      case InString
      with r inString_space_start[OF _ f ws] nws tk show ?thesis by auto
    qed
  qed
qed

text \<open>
  C7, as stated: a token made of \<open>true\<close>, \<open>false\<close> or \<open>nil\<close> after a folded prefix cluster is
  never an identifier. It fails for the prefix \<open>@\<close>, which the symbol rule folds and the
  literal rule does not: the line \<open>@true\<close> is one token of kind \<open>id\<close>.
\<close>

theorem deref_true_is_id:
  \<open>map kindRawOffset (fst (processLine (newScanner 10000) (js ''@true'') None)) =
     [(''id'', js ''@true'', 0), (''eol'', js [lf], 5)]\<close>
  by (simp add: scanner_eval)

text \<open>
  C7, amended: for every line and state, every token returned by \<open>processLine\<close> whose raw text
  is \<open>true\<close>, \<open>false\<close> or \<open>nil\<close>, optionally preceded by prefix characters among
  \<open>' ` ~ #\<close> each optionally followed by whitespace (the text matches the literal rule's
  pattern as a whole), has the kind \<open>lit\<close>, or \<open>str-inside\<close> when it lies inside a string; it
  never has the kind \<open>id\<close>.
\<close>

theorem literal_words_are_lit:
  assumes "t \<in> set (fst (processLine sc line arg))" and "fullMatch litWords (raw t)"
  shows "type t = ''lit'' \<or> type t = ''str-inside''"
proof -
  let ?st0 = "case arg of None \<Rightarrow> this_state sc | Some s \<Rightarrow> s"
  let ?res = "lexLoop (maxLength sc) line (if inString ?st0 then InString else Toplevel) 0 ?st0 []"
  from fullMatch_litWords_hd[OF assms(2)] have "raw t \<noteq> js [lf]" by (auto simp: js_def)
  with assms(1) have "t \<in> set (fst ?res)"
    by (auto simp: processLine_def Let_def)
  from lexLoop_emitted[OF this] obtain g' i tk j where
    fm: "firstMatch (rules g') line i = Some (tk, j)" and ty: "type t = type tk"
    and r: "raw t = raw tk \<or> (\<exists>A. raw t = A @ 10 # raw tk \<and> type tk \<noteq> ''ws'')" by auto
  from r show ?thesis
  proof
    assume "raw t = raw tk"
    with literal_word_kind[OF fm] assms(2) ty show ?thesis by simp
  next
    assume "\<exists>A. raw t = A @ 10 # raw tk \<and> type tk \<noteq> ''ws''"
    then obtain A where "raw t = A @ 10 # raw tk" "type tk \<noteq> ''ws''" by blast
    with merged_word_kind[OF fm, of A] assms(2) ty show ?thesis by simp
  qed
qed

theorem literal_words_are_lit_witness:
  \<open>fullMatch litWords (js [sq] @ js ''true'') \<and>
   type (hd (fst (processLine (newScanner 10000) (js [sq] @ js ''true'') None))) = ''lit''\<close>
proof -
  have p: "fst (processLine (newScanner 10000) (js [sq] @ js ''true'') None) =
      [\<lparr>type = ''lit'', raw = js [sq] @ js ''true'', offset = 0\<rparr>,
       \<lparr>type = ''eol'', raw = js [lf], offset = 5\<rparr>]"
    by (simp add: scanner_eval)
  have f: "fullMatch litWords (js [sq] @ js ''true'')"
    by (simp add: fullMatch_def litWords_def rmatch.simps(7) chars_def js_def isWhiteSpace_def
        isLineTerminator_def)
  show ?thesis
    using literal_words_are_lit [of
        "\<lparr>type = ''lit'', raw = js [sq] @ js ''true'', offset = 0\<rparr>"
        "newScanner 10000" "js [sq] @ js ''true''" None] p f
    by (simp add: js_def)
qed

section \<open>Bracket pairs, proved\<close>

text \<open>
  C6. For a non-empty opening text and any closing text, \<open>validPair\<close> is true exactly when the
  last code unit of the opening text and the closing text form one of the pairs
  \<open>( )\<close>, \<open>[ ]\<close>, \<open>{ }\<close>, \<open>" "\<close>; in particular it is true for \<open>(\<close> with \<open>)\<close>, for \<open>'(\<close> with \<open>)\<close>
  and for \<open>"\<close> with \<open>"\<close>, and false for \<open>(\<close> with \<open>]\<close>.
\<close>

theorem validPair_correspondence:
  "(opn \<noteq> [] \<longrightarrow>
      validPair opn close =
        ((last opn = of_char CHR ''('' \<and> close = js '')'') \<or>
         (last opn = of_char CHR ''['' \<and> close = js '']'') \<or>
         (last opn = of_char CHR ''{'' \<and> close = js ''}'') \<or>
         (last opn = of_char dq \<and> close = js [dq])))
   \<and> validPair (js ''('') (js '')'')
   \<and> validPair (js [sq] @ js ''('') (js '')'')
   \<and> \<not> validPair (js ''('') (js '']'')
   \<and> validPair (js [dq]) (js [dq])"
  by (auto simp: validPair_def js_def)

theorem validPair_correspondence_witness:
  "js [sq] @ js ''('' \<noteq> [] \<and> validPair (js [sq] @ js ''('') (js '')'') \<and>
   last (js [sq] @ js ''('') = of_char CHR ''(''"
  using validPair_correspondence [of "js [sq] @ js ''(''" "js '')''"]
  by (simp add: js_def)

text \<open>
  C10. For the empty opening text \<open>validPair\<close> returns false for every closing text: the
  last code unit of the empty string is \<open>undefined\<close>, which equals no bracket.
\<close>

theorem validPair_empty_open: "validPair [] close = False"
  by (simp add: validPair_def)


end
